theory Spec2Isabelle
  imports Main "HOL-Library.Sublist"
begin

section \<open>Data model\<close>

text \<open>
  The userscript (version 1.8b) filters the entries of an activity feed.  The embedding
  follows the classes of the script: \<open>ActivityHandler\<close> (the per-entry decision),
  \<open>UIHandler\<close> (the load-more control and the cancel button), \<open>MainApp\<close> (the
  mutation callback) and \<open>ConfigValidator\<close>.  The settings \<open>runOn\<close> only
  decide whether the callback runs at all; they appear as the result of
  \<open>isAllowedUrl\<close>.  \<open>options.reversedConditions\<close> is the one setting that the
  validator does not look at; it is taken to be a boolean.
\<close>

subsection \<open>Configuration values\<close>

text \<open>
  The two array-valued settings, \<open>remove.containsStrings\<close> and
  \<open>options.linkedConditions\<close>, hold strings and arrays, nested to any depth: this is
  what the type checks of the validator let through (\<open>typeof element === 'string'\<close>,
  \<open>Array.isArray(element)\<close>).
\<close>

datatype cfgval = CStr string | CArr "cfgval list"

record remove_cfg =
  uncommented :: bool
  unliked :: bool
  text_only :: bool      \<comment> \<open>\<open>remove.text\<close>\<close>
  images :: bool
  videos :: bool
  containsStrings :: "cfgval list"

record options_cfg =
  targetLoadCount :: int
  caseSensitive :: bool
  reversedConditions :: bool
  linkedConditions :: "cfgval list"

record config =
  remove :: remove_cfg
  options :: options_cfg

text \<open>
  \<open>remove[name]\<close> reads a property by its name: a boolean, the array of patterns, or
  \<open>undefined\<close> for a name that is no property of \<open>remove\<close>.
\<close>

datatype option_value = OBool bool | OArr "cfgval list" | OUndefined

definition removeOption :: "remove_cfg \<Rightarrow> string \<Rightarrow> option_value" where
  "removeOption r name =
     (if name = ''uncommented'' then OBool (uncommented r)
      else if name = ''unliked'' then OBool (unliked r)
      else if name = ''text'' then OBool (text_only r)
      else if name = ''images'' then OBool (images r)
      else if name = ''videos'' then OBool (videos r)
      else if name = ''containsStrings'' then OArr (containsStrings r)
      else OUndefined)"

subsection \<open>Entries\<close>

text \<open>
  An entry is a DOM node.  The decision reads it through five selectors, its class list
  and its text, so the node is the record of what those queries return:
  \<open>img\<close>, \<open>video\<close> and \<open>youtube\<close> say whether \<open>querySelector\<close> finds an element
  for \<open>img\<close>, \<open>video\<close> and \<open>span.youtube\<close>; \<open>replies\<close> and \<open>likes\<close> are
  \<open>None\<close> when \<open>div.action.replies\<close> (\<open>div.action.likes\<close>) is absent, and otherwise
  say whether that element holds a \<open>span.count\<close>.
\<close>

record node =
  classList :: "string list"
  textContent :: string
  img :: bool
  video :: bool
  youtube :: bool
  replies :: "bool option"
  likes :: "bool option"

text \<open>
  What a predicate returns: a boolean, an element (the result of a successful
  \<open>querySelector\<close>) or \<open>null\<close>.  \<open>some\<close>, \<open>every\<close>, \<open>&&\<close> and \<open>!\<close> look at the
  truthiness only; \<open>includes(true)\<close> compares with the boolean itself.
\<close>

datatype jsval = JBool bool | JElement | JNull

fun truthy :: "jsval \<Rightarrow> bool" where
  "truthy (JBool b) = b"
| "truthy JElement = True"
| "truthy JNull = False"

definition jsNot :: "jsval \<Rightarrow> jsval" where
  "jsNot v = JBool (\<not> truthy v)"

text \<open>The only exception of the decision path: calling what is not a function.\<close>

datatype error = TypeError

section \<open>Array and string helpers of the language\<close>

text \<open>\<open>Array.prototype.flat()\<close> with its default depth 1.\<close>

fun flat :: "cfgval list \<Rightarrow> cfgval list" where
  "flat [] = []"
| "flat (CStr s # xs) = CStr s # flat xs"
| "flat (CArr ys # xs) = ys @ flat xs"

text \<open>
  The string conversion of a value, which \<open>String.prototype.includes\<close> applies to its
  argument: an array is the conversions of its elements joined by commas.
\<close>

fun toStr :: "cfgval \<Rightarrow> string" and joinStr :: "cfgval list \<Rightarrow> string" where
  "toStr (CStr s) = s"
| "toStr (CArr xs) = joinStr xs"
| "joinStr [] = []"
| "joinStr [x] = toStr x"
| "joinStr (x # y # ys) = toStr x @ '','' @ joinStr (y # ys)"

text \<open>
  \<open>toLowerCase\<close> on the ASCII letters; strings are taken to be ASCII, every other
  character is left as it is.
\<close>

definition lowerChar :: "char \<Rightarrow> char" where
  "lowerChar c =
     (let n = (of_char c :: nat) in if 65 \<le> n \<and> n \<le> 90 then char_of (n + 32) else c)"

definition toLowerCase :: "string \<Rightarrow> string" where
  "toLowerCase s = map lowerChar s"

text \<open>\<open>t.includes(s)\<close>: \<open>s\<close> occurs in \<open>t\<close> as a contiguous substring.\<close>

definition str_includes :: "string \<Rightarrow> string \<Rightarrow> bool" where
  "str_includes t s = sublist s t"

text \<open>
  \<open>some\<close> and \<open>every\<close> with a callback that may throw: elements are visited in order,
  the visit stops at the first truthy (falsy) result, and an exception of the callback
  leaves the loop at once.  \<open>mapM\<close> is \<open>map\<close>, which visits every element.
\<close>

fun someM :: "('a \<Rightarrow> error + jsval) \<Rightarrow> 'a list \<Rightarrow> error + bool" where
  "someM f [] = Inr False"
| "someM f (x # xs) =
     (case f x of
        Inl e \<Rightarrow> Inl e
      | Inr v \<Rightarrow> if truthy v then Inr True else someM f xs)"

fun everyM :: "('a \<Rightarrow> error + jsval) \<Rightarrow> 'a list \<Rightarrow> error + bool" where
  "everyM f [] = Inr True"
| "everyM f (x # xs) =
     (case f x of
        Inl e \<Rightarrow> Inl e
      | Inr v \<Rightarrow> if truthy v then everyM f xs else Inr False)"

fun mapM :: "('a \<Rightarrow> error + 'b) \<Rightarrow> 'a list \<Rightarrow> error + 'b list" where
  "mapM f [] = Inr []"
| "mapM f (x # xs) =
     (case f x of
        Inl e \<Rightarrow> Inl e
      | Inr v \<Rightarrow> (case mapM f xs of Inl e \<Rightarrow> Inl e | Inr vs \<Rightarrow> Inr (v # vs)))"

definition liftB :: "error + bool \<Rightarrow> error + jsval" where
  "liftB r = (case r of Inl e \<Rightarrow> Inl e | Inr b \<Rightarrow> Inr (JBool b))"

section \<open>ActivityHandler: the per-entry decision\<close>

subsection \<open>Primitive predicates\<close>

definition shouldRemoveImage :: "node \<Rightarrow> jsval" where
  "shouldRemoveImage n = (if img n then JElement else JNull)"

definition shouldRemoveVideo :: "node \<Rightarrow> jsval" where
  "shouldRemoveVideo n =
     (if video n then JElement else if youtube n then JElement else JNull)"

definition shouldRemoveUncommented :: "node \<Rightarrow> jsval" where
  "shouldRemoveUncommented n =
     JBool (\<not> (case replies n of None \<Rightarrow> False | Some c \<Rightarrow> c))"

definition shouldRemoveUnliked :: "node \<Rightarrow> jsval" where
  "shouldRemoveUnliked n =
     JBool (\<not> (case likes n of None \<Rightarrow> False | Some c \<Rightarrow> c))"

definition shouldRemoveText :: "node \<Rightarrow> jsval" where
  "shouldRemoveText n =
     (if ''activity-text'' \<in> set (classList n) \<or> ''activity-message'' \<in> set (classList n)
      then JBool (\<not> (truthy (shouldRemoveImage n) \<or> truthy (shouldRemoveVideo n)))
      else JBool False)"

subsection \<open>The string condition\<close>

text \<open>
  \<open>containsString(nodeText, strings)\<close>.  Without case sensitivity the argument's own
  \<open>toLowerCase\<close> is called, which an array does not have; with case sensitivity
  \<open>includes\<close> converts its argument to a string.
\<close>

definition containsString :: "config \<Rightarrow> string \<Rightarrow> cfgval \<Rightarrow> error + jsval" where
  "containsString cfg nodeText strings =
     (if \<not> caseSensitive (options cfg)
      then (case strings of
              CStr s \<Rightarrow> Inr (JBool (str_includes (toLowerCase nodeText) (toLowerCase s)))
            | CArr _ \<Rightarrow> Inl TypeError)
      else Inr (JBool (str_includes nodeText (toStr strings))))"

definition checkStrings :: "config \<Rightarrow> node \<Rightarrow> cfgval \<Rightarrow> error + jsval" where
  "checkStrings cfg n strings =
     (case strings of
        CArr strs \<Rightarrow> liftB (everyM (\<lambda>str. containsString cfg (textContent n) str) strs)
      | CStr _ \<Rightarrow> containsString cfg (textContent n) strings)"

definition shouldRemoveStrings :: "config \<Rightarrow> node \<Rightarrow> bool \<Rightarrow> error + jsval" where
  "shouldRemoveStrings cfg n reversed =
     (if length (flat (containsStrings (remove cfg))) = 0 then Inr (JBool False)
      else (case someM (checkStrings cfg n) (containsStrings (remove cfg)) of
              Inl e \<Rightarrow> Inl e
            | Inr b \<Rightarrow> Inr (JBool (if reversed then \<not> b else b))))"

subsection \<open>The table of conditions\<close>

type_synonym predicate = "node \<Rightarrow> bool \<Rightarrow> error + jsval"

definition reversible :: "(node \<Rightarrow> jsval) \<Rightarrow> predicate" where
  \<comment> \<open>\<open>(node, reverse) => reverse ? !p(node) : p(node)\<close>\<close>
  "reversible p n reverse = Inr (if reverse then jsNot (p n) else p n)"

definition conditionsMap :: "config \<Rightarrow> (string \<times> predicate) list" where
  "conditionsMap cfg =
     [(''uncommented'', reversible shouldRemoveUncommented),
      (''unliked'', reversible shouldRemoveUnliked),
      (''text'', reversible shouldRemoveText),
      (''images'', reversible shouldRemoveImage),
      (''videos'', reversible shouldRemoveVideo),
      (''containsStrings'', \<lambda>n reverse. shouldRemoveStrings cfg n reverse)]"

text \<open>
  \<open>this.conditionsMap.get(condition)(node, reverse)\<close>: the lookup gives \<open>undefined\<close>
  for a key that is not one of the six names (an array is never a key), and calling
  \<open>undefined\<close> throws.
\<close>

definition mapGet :: "config \<Rightarrow> cfgval \<Rightarrow> predicate option" where
  "mapGet cfg condition =
     (case condition of CStr s \<Rightarrow> map_of (conditionsMap cfg) s | CArr _ \<Rightarrow> None)"

definition callCondition :: "config \<Rightarrow> node \<Rightarrow> bool \<Rightarrow> cfgval \<Rightarrow> error + jsval" where
  "callCondition cfg n reverse condition =
     (case mapGet cfg condition of None \<Rightarrow> Inl TypeError | Some p \<Rightarrow> p n reverse)"

subsection \<open>Linked conditions\<close>

text \<open>
  \<open>checkConditions(node, conditionList, reversedConditions)\<close>.  A string has neither
  \<open>some\<close> nor \<open>every\<close>, so a bare name in the place of a list throws.
\<close>

definition checkConditions :: "config \<Rightarrow> node \<Rightarrow> cfgval \<Rightarrow> bool \<Rightarrow> error + jsval" where
  "checkConditions cfg n conditionList reversed =
     (case conditionList of
        CStr _ \<Rightarrow> Inl TypeError
      | CArr cs \<Rightarrow>
          liftB (if reversed then someM (callCondition cfg n reversed) cs
                 else everyM (callCondition cfg n reversed) cs))"

definition isArray :: "cfgval \<Rightarrow> bool" where
  "isArray v = (case v of CArr _ \<Rightarrow> True | CStr _ \<Rightarrow> False)"

definition shouldRemoveByLinkedConditions :: "config \<Rightarrow> node \<Rightarrow> error + bool" where
  "shouldRemoveByLinkedConditions cfg n =
     (case linkedConditions (options cfg) of
        [] \<Rightarrow> Inr False
      | first # rest \<Rightarrow>
          (let conditions = (if isArray first then first # rest else [CArr (first # rest)])
           in someM (\<lambda>condition. checkConditions cfg n condition
                       (reversedConditions (options cfg))) conditions))"

subsection \<open>The decision\<close>

definition enabled :: "option_value \<Rightarrow> bool" where
  \<comment> \<open>\<open>conditionOption === true || (Array.isArray(conditionOption) && conditionOption.length > 0)\<close>\<close>
  "enabled v = (case v of OBool b \<Rightarrow> b | OArr xs \<Rightarrow> length xs > 0 | OUndefined \<Rightarrow> False)"

definition skipChecking :: "config \<Rightarrow> string \<Rightarrow> bool" where
  "skipChecking cfg condition = (CStr condition \<in> set (flat (linkedConditions (options cfg))))"

definition participates :: "config \<Rightarrow> string \<Rightarrow> bool" where
  "participates cfg name =
     (enabled (removeOption (remove cfg) name) \<and> \<not> skipChecking cfg name)"

definition shouldRemoveNode :: "config \<Rightarrow> node \<Rightarrow> error + bool" where
  "shouldRemoveNode cfg n =
     (case shouldRemoveByLinkedConditions cfg n of
        Inl e \<Rightarrow> Inl e
      | Inr True \<Rightarrow> Inr True
      | Inr False \<Rightarrow>
          if reversedConditions (options cfg)
          then (case mapM (\<lambda>(name, predicate). predicate n (reversedConditions (options cfg)))
                       (filter (\<lambda>(name, predicate). participates cfg name) (conditionsMap cfg)) of
                  Inl e \<Rightarrow> Inl e
                | Inr toBeRemoved \<Rightarrow>
                    Inr (JBool True \<in> set toBeRemoved \<and> JBool False \<notin> set toBeRemoved))
          else someM (\<lambda>(name, predicate).
                        if participates cfg name
                        then predicate n (reversedConditions (options cfg))
                        else Inr (JBool False))
                 (conditionsMap cfg))"

section \<open>ConfigValidator\<close>

text \<open>
  The validator collects messages in \<open>this.errors\<close>; \<open>validate\<close> throws when the list
  is not empty, and \<open>main\<close> then starts nothing.  The checks of \<open>validateBooleans\<close>
  and \<open>validateArrays\<close> are type checks that the records above already make, so they
  add no message here.
\<close>

definition allowedConditions :: "string list" where
  "allowedConditions =
     [''uncommented'', ''unliked'', ''text'', ''images'', ''videos'', ''containsStrings'']"

definition validatePositiveNonZeroInteger :: "config \<Rightarrow> string list" where
  "validatePositiveNonZeroInteger cfg =
     (if targetLoadCount (options cfg) \<le> 0
      then [''options.targetLoadCount should be a positive non-zero integer'']
      else [])"

definition allowedCondition :: "cfgval \<Rightarrow> bool" where
  \<comment> \<open>the negation of \<open>typeof condition !== 'string' || !allowedConditions.includes(condition)\<close>\<close>
  "allowedCondition condition =
     (case condition of CStr s \<Rightarrow> s \<in> set allowedConditions | CArr _ \<Rightarrow> False)"

definition validateLinkedConditions :: "config \<Rightarrow> string list" where
  "validateLinkedConditions cfg =
     (if list_all allowedCondition (flat (linkedConditions (options cfg))) then []
      else [''options.linkedConditions should only contain the following strings: '' @
            ''uncommented, unliked, text, images, videos, containsStrings''])"

fun validateArrayContents :: "cfgval list \<Rightarrow> bool" where
  "validateArrayContents [] = True"
| "validateArrayContents (CArr element # arr) =
     (if \<not> validateArrayContents element then False else validateArrayContents arr)"
| "validateArrayContents (CStr element # arr) = validateArrayContents arr"

definition validateStringArrays :: "config \<Rightarrow> string list" where
  "validateStringArrays cfg =
     (if \<not> validateArrayContents (containsStrings (remove cfg))
      then [''remove.containsStrings should only contain strings'']
      else [])"

definition validate :: "config \<Rightarrow> string list" where
  "validate cfg =
     validatePositiveNonZeroInteger cfg @ validateLinkedConditions cfg @ validateStringArrays cfg"

definition validated :: "config \<Rightarrow> bool" where
  \<comment> \<open>\<open>validate()\<close> returns without throwing\<close>
  "validated cfg = (validate cfg = [])"

section \<open>UIHandler and MainApp\<close>

text \<open>
  One record holds the fields of the two handlers (\<open>currentLoadCount\<close> of the
  \<open>ActivityHandler\<close>; \<open>userPressed\<close>, \<open>cancel\<close>, \<open>loadMore\<close> of the \<open>UIHandler\<close>)
  and what the script does to the page: the controls that were given a click listener,
  the controls on which \<open>click()\<close> was called, the entries that were removed, the
  interval timers that run and the scroll events they have sent.  A load-more control is
  named by a number.
\<close>

datatype display = Shown | Hidden

record state =
  currentLoadCount :: nat
  userPressed :: bool
  cancel :: "display option"
  loadMore :: "nat option"
  listeners :: "nat list"
  clicked :: "nat list"
  removed :: "node list"
  timers :: nat
  scrolls :: nat

definition constructed :: state where
  \<comment> \<open>the two constructors\<close>
  "constructed =
     \<lparr>currentLoadCount = 0, userPressed = True, cancel = None, loadMore = None,
      listeners = [], clicked = [], removed = [], timers = 0, scrolls = 0\<rparr>"

definition createCancel :: "state \<Rightarrow> state" where
  "createCancel s = s\<lparr>cancel := Some Shown\<rparr>"

definition showCancel :: "state \<Rightarrow> state" where
  "showCancel s = (case cancel s of None \<Rightarrow> createCancel s | Some _ \<Rightarrow> s\<lparr>cancel := Some Shown\<rparr>)"

definition hideCancel :: "state \<Rightarrow> state" where
  "hideCancel s = (case cancel s of Some _ \<Rightarrow> s\<lparr>cancel := Some Hidden\<rparr> | None \<Rightarrow> s)"

definition simulateDomEvents :: "state \<Rightarrow> state" where
  \<comment> \<open>\<open>setInterval\<close>: one more timer runs\<close>
  "simulateDomEvents s = s\<lparr>timers := timers s + 1\<rparr>"

definition clickListener :: "state \<Rightarrow> state" where
  \<comment> \<open>the listener that \<open>setLoadMore\<close> adds to the control\<close>
  "clickListener s = showCancel (simulateDomEvents (s\<lparr>userPressed := True\<rparr>))"

definition setLoadMore :: "nat \<Rightarrow> state \<Rightarrow> state" where
  "setLoadMore button s = s\<lparr>loadMore := Some button, listeners := listeners s @ [button]\<rparr>"

text \<open>
  A click on a control, by the user or by \<open>click()\<close>, runs every listener that was added
  to it, one for each call of \<open>setLoadMore\<close> with that control.
\<close>

definition dispatchClick :: "nat \<Rightarrow> state \<Rightarrow> state" where
  "dispatchClick button s = (clickListener ^^ count_list (listeners s) button) s"

definition clickLoadMore :: "state \<Rightarrow> state" where
  "clickLoadMore s =
     (case loadMore s of
        Some button \<Rightarrow> (dispatchClick button (s\<lparr>clicked := clicked s @ [button]\<rparr>))\<lparr>loadMore := None\<rparr>
      | None \<Rightarrow> s)"

definition ui_resetState :: "state \<Rightarrow> state" where
  "ui_resetState s = hideCancel (s\<lparr>userPressed := False\<rparr>)"

definition ac_resetState :: "state \<Rightarrow> state" where
  "ac_resetState s = s\<lparr>currentLoadCount := 0\<rparr>"

definition removeEntry :: "config \<Rightarrow> node \<Rightarrow> state \<Rightarrow> error + state" where
  "removeEntry cfg n s =
     (case shouldRemoveNode cfg n of
        Inl e \<Rightarrow> Inl e
      | Inr True \<Rightarrow> Inr (s\<lparr>removed := removed s @ [n]\<rparr>)
      | Inr False \<Rightarrow> Inr (s\<lparr>currentLoadCount := currentLoadCount s + 1\<rparr>))"

text \<open>
  An added node as \<open>handleAddedNode\<close> sorts it: an element matching
  \<open>div.activity-entry\<close>, else an element matching \<open>div.load-more\<close>, else anything.
\<close>

datatype added_node = Activity node | LoadMoreButton nat | OtherNode

definition handleAddedNode :: "config \<Rightarrow> added_node \<Rightarrow> state \<Rightarrow> error + state" where
  "handleAddedNode cfg a s =
     (case a of
        Activity n \<Rightarrow> removeEntry cfg n s
      | LoadMoreButton button \<Rightarrow> Inr (setLoadMore button s)
      | OtherNode \<Rightarrow> Inr s)"

definition loadMoreOrReset :: "config \<Rightarrow> state \<Rightarrow> state" where
  "loadMoreOrReset cfg s =
     (if int (currentLoadCount s) < targetLoadCount (options cfg) \<and> userPressed s
      then clickLoadMore s
      else ui_resetState (ac_resetState s))"

text \<open>
  The iteration of \<open>observeMutations\<close> over the added nodes of every mutation.  An exception
  of the decision leaves the callback: the fields keep what the earlier nodes did to
  them, and \<open>loadMoreOrReset\<close> is not reached.  So the result is the state together
  with the exception, if there was one.
\<close>

fun handleNodes :: "config \<Rightarrow> added_node list \<Rightarrow> state \<Rightarrow> state \<times> error option" where
  "handleNodes cfg [] s = (s, None)"
| "handleNodes cfg (a # as) s =
     (case handleAddedNode cfg a s of
        Inl e \<Rightarrow> (s, Some e)
      | Inr s' \<Rightarrow> handleNodes cfg as s')"

definition observeMutations ::
  "config \<Rightarrow> bool \<Rightarrow> added_node list list \<Rightarrow> state \<Rightarrow> state \<times> error option" where
  \<comment> \<open>\<open>isAllowedUrl\<close> is the result of \<open>this.isAllowedUrl()\<close>\<close>
  "observeMutations cfg isAllowedUrl mutations s =
     (if isAllowedUrl
      then (case handleNodes cfg (concat mutations) s of
              (s', Some e) \<Rightarrow> (s', Some e)
            | (s', None) \<Rightarrow> (loadMoreOrReset cfg s', None))
      else (s, None))"

text \<open>
  Everything that can happen to the script after \<open>main\<close>: the observer delivers a batch
  of mutations, the user clicks a load-more control, the user clicks the cancel button
  (which exists only once it was created), or a timer of \<open>simulateDomEvents\<close> fires.
\<close>

datatype event = Batch bool "added_node list list" | UserClick nat | CancelClick | Tick

definition cancelClick :: "state \<Rightarrow> state" where
  "cancelClick s =
     (case cancel s of None \<Rightarrow> s | Some _ \<Rightarrow> s\<lparr>userPressed := False, cancel := Some Hidden\<rparr>)"

definition tick :: "state \<Rightarrow> state" where
  "tick s =
     (if timers s = 0 then s
      else if userPressed s then s\<lparr>scrolls := scrolls s + 1\<rparr>
      else s\<lparr>timers := timers s - 1\<rparr>)"

fun step :: "config \<Rightarrow> state \<Rightarrow> event \<Rightarrow> state" where
  "step cfg s (Batch isAllowedUrl mutations) = fst (observeMutations cfg isAllowedUrl mutations s)"
| "step cfg s (UserClick button) = dispatchClick button s"
| "step cfg s CancelClick = cancelClick s"
| "step cfg s Tick = tick s"

definition run :: "config \<Rightarrow> event list \<Rightarrow> state" where
  "run cfg events = foldl (step cfg) constructed events"

section \<open>The specification's reading of a configuration\<close>

text \<open>
  The definitions of this section follow the words of the specification, not the code:
  they say what a linked group, a pattern group and a participating condition are, and
  are compared with the code in the theorems below.
\<close>

definition isStr :: "cfgval \<Rightarrow> bool" where
  "isStr v = (case v of CStr _ \<Rightarrow> True | CArr _ \<Rightarrow> False)"

definition stringsOf :: "cfgval list \<Rightarrow> string list" where
  "stringsOf vs = concat (map (\<lambda>v. case v of CStr s \<Rightarrow> [s] | CArr _ \<Rightarrow> []) vs)"

definition groupOf :: "cfgval \<Rightarrow> string list" where
  \<comment> \<open>a bare string is a singleton group\<close>
  "groupOf v = (case v of CStr s \<Rightarrow> [s] | CArr ms \<Rightarrow> stringsOf ms)"

definition linkedGroups :: "config \<Rightarrow> string list list" where
  \<comment> \<open>a single flat group if the configuration supplies an unwrapped sequence\<close>
  "linkedGroups cfg =
     (let lc = linkedConditions (options cfg)
      in if lc = [] then [] else if list_all isStr lc then [stringsOf lc] else map groupOf lc)"

definition uniformLinked :: "config \<Rightarrow> bool" where
  \<comment> \<open>\<open>linkedConditions\<close> is one unwrapped group, or a sequence of groups\<close>
  "uniformLinked cfg =
     (list_all isStr (linkedConditions (options cfg)) \<or>
      list_all isArray (linkedConditions (options cfg)))"

definition patternGroups :: "config \<Rightarrow> string list list" where
  "patternGroups cfg = map groupOf (containsStrings (remove cfg))"

definition shallowPatterns :: "config \<Rightarrow> bool" where
  \<comment> \<open>the pattern set is a sequence of strings and of sequences of strings\<close>
  "shallowPatterns cfg =
     list_all (\<lambda>p. case p of CStr _ \<Rightarrow> True | CArr ms \<Rightarrow> list_all isStr ms)
       (containsStrings (remove cfg))"

text \<open>Every string of a pattern set, at any depth of nesting.\<close>

fun stringsIn :: "cfgval \<Rightarrow> string list" where
  "stringsIn (CStr s) = [s]"
| "stringsIn (CArr xs) = concat (map stringsIn xs)"

definition occursIn :: "config \<Rightarrow> string \<Rightarrow> string \<Rightarrow> bool" where
  "occursIn cfg txt s =
     (if caseSensitive (options cfg) then sublist s txt
      else sublist (toLowerCase s) (toLowerCase txt))"

definition groupMatches :: "config \<Rightarrow> node \<Rightarrow> string list \<Rightarrow> bool" where
  "groupMatches cfg n g = list_all (occursIn cfg (textContent n)) g"

definition someGroupMatches :: "config \<Rightarrow> node \<Rightarrow> bool" where
  "someGroupMatches cfg n = list_ex (groupMatches cfg n) (patternGroups cfg)"

definition enabledCondition :: "config \<Rightarrow> string \<Rightarrow> bool" where
  \<comment> \<open>boolean flag true, or for the string condition a non-empty pattern set\<close>
  "enabledCondition cfg name =
     (name = ''uncommented'' \<and> uncommented (remove cfg) \<or>
      name = ''unliked'' \<and> unliked (remove cfg) \<or>
      name = ''text'' \<and> text_only (remove cfg) \<or>
      name = ''images'' \<and> images (remove cfg) \<or>
      name = ''videos'' \<and> videos (remove cfg) \<or>
      name = ''containsStrings'' \<and> containsStrings (remove cfg) \<noteq> [])"

definition claimed :: "config \<Rightarrow> string \<Rightarrow> bool" where
  "claimed cfg name = list_ex (\<lambda>g. name \<in> set g) (linkedGroups cfg)"

definition participating :: "config \<Rightarrow> string list" where
  "participating cfg =
     filter (\<lambda>name. enabledCondition cfg name \<and> \<not> claimed cfg name) allowedConditions"

definition rawPredicate :: "config \<Rightarrow> node \<Rightarrow> string \<Rightarrow> bool" where
  \<comment> \<open>the raw predicate of a condition holds on the entry\<close>
  "rawPredicate cfg n name =
     (if name = ''uncommented'' then truthy (shouldRemoveUncommented n)
      else if name = ''unliked'' then truthy (shouldRemoveUnliked n)
      else if name = ''text'' then truthy (shouldRemoveText n)
      else if name = ''images'' then truthy (shouldRemoveImage n)
      else if name = ''videos'' then truthy (shouldRemoveVideo n)
      else if name = ''containsStrings'' then shouldRemoveStrings cfg n False = Inr (JBool True)
      else False)"

definition removesNotReversed :: "config \<Rightarrow> node \<Rightarrow> bool" where
  "removesNotReversed cfg n =
     (list_ex (rawPredicate cfg n) (participating cfg) \<or>
      list_ex (\<lambda>g. list_all (rawPredicate cfg n) g) (linkedGroups cfg))"

definition underReversalAsClaimed :: "config \<Rightarrow> node \<Rightarrow> string \<Rightarrow> bool" where
  \<comment> \<open>primitive predicates negated; the string condition true iff no pattern group matches\<close>
  "underReversalAsClaimed cfg n name =
     (if name = ''containsStrings'' then \<not> someGroupMatches cfg n
      else \<not> rawPredicate cfg n name)"

definition underReversal :: "config \<Rightarrow> node \<Rightarrow> string \<Rightarrow> bool" where
  \<comment> \<open>as above, but the string condition is false for a pattern set that flattens to nothing\<close>
  "underReversal cfg n name =
     (if name = ''containsStrings''
      then flat (containsStrings (remove cfg)) \<noteq> [] \<and> \<not> someGroupMatches cfg n
      else \<not> rawPredicate cfg n name)"

definition removesReversed ::
  "(config \<Rightarrow> node \<Rightarrow> string \<Rightarrow> bool) \<Rightarrow> config \<Rightarrow> node \<Rightarrow> bool" where
  "removesReversed ev cfg n =
     (list_ex (\<lambda>g. list_ex (ev cfg n) g) (linkedGroups cfg) \<or>
      participating cfg \<noteq> [] \<and> list_all (ev cfg n) (participating cfg))"

section \<open>Example configurations, entries and states\<close>

definition defaultConfig :: config where
  \<comment> \<open>the \<open>config\<close> object of the script as distributed\<close>
  "defaultConfig =
     \<lparr>remove = \<lparr>uncommented = True, unliked = False, text_only = False, images = False,
                 videos = False, containsStrings = []\<rparr>,
      options = \<lparr>targetLoadCount = 2, caseSensitive = False, reversedConditions = False,
                 linkedConditions = []\<rparr>\<rparr>"

definition withLinked :: "cfgval list \<Rightarrow> config \<Rightarrow> config" where
  "withLinked lc cfg = cfg\<lparr>options := (options cfg)\<lparr>linkedConditions := lc\<rparr>\<rparr>"

definition withReversed :: "bool \<Rightarrow> config \<Rightarrow> config" where
  "withReversed b cfg = cfg\<lparr>options := (options cfg)\<lparr>reversedConditions := b\<rparr>\<rparr>"

definition withStrings :: "cfgval list \<Rightarrow> config \<Rightarrow> config" where
  "withStrings cs cfg = cfg\<lparr>remove := (remove cfg)\<lparr>containsStrings := cs\<rparr>\<rparr>"

definition withUncommented :: "bool \<Rightarrow> config \<Rightarrow> config" where
  "withUncommented b cfg = cfg\<lparr>remove := (remove cfg)\<lparr>uncommented := b\<rparr>\<rparr>"

definition plainEntry :: node where
  \<comment> \<open>a text entry without replies, likes or media\<close>
  "plainEntry =
     \<lparr>classList = [''activity-entry'', ''activity-text''], textContent = ''Giveaway CLOSED now'',
      img = False, video = False, youtube = False, replies = None, likes = None\<rparr>"

definition imageEntry :: node where
  \<comment> \<open>the same entry with an image in it\<close>
  "imageEntry = plainEntry\<lparr>img := True\<rparr>"

definition repliedEntry :: node where
  \<comment> \<open>the same entry with a reply count\<close>
  "repliedEntry = plainEntry\<lparr>replies := Some True\<rparr>"

text \<open>
  Every programmatic click on a control, and the pending reference to it, is covered by a
  call of \<open>setLoadMore\<close> with that control.
\<close>

definition heldOnce :: "state \<Rightarrow> bool" where
  "heldOnce s = (\<forall>b. count_list (clicked s) b + (if loadMore s = Some b then 1 else 0) \<le> count_list (listeners s) b)"

definition holdingState :: state where
  "holdingState = constructed\<lparr>currentLoadCount := 1, loadMore := Some 7, listeners := [7]\<rparr>"

definition idleState :: state where
  "idleState = holdingState\<lparr>userPressed := False, cancel := Some Hidden\<rparr>"

definition firstBatch :: "added_node list list" where
  "firstBatch = [[Activity plainEntry, OtherNode], [], [Activity repliedEntry, LoadMoreButton 7]]"

definition bareThenGroupConfig :: config where
  "bareThenGroupConfig = withLinked [CStr ''images'', CArr [CStr ''videos'']] defaultConfig"

definition groupThenBareConfig :: config where
  "groupThenBareConfig = withLinked [CArr [CStr ''images''], CStr ''videos''] defaultConfig"

definition linkedStringsConfig :: config where
  "linkedStringsConfig =
     withReversed True (withLinked [CStr ''containsStrings''] (withUncommented False defaultConfig))"

definition keepRepliedConfig :: config where
  "keepRepliedConfig =
     withReversed True (withLinked [CArr [CStr ''images'', CStr ''videos'']] defaultConfig)"

definition mediaEntry :: node where
  "mediaEntry = plainEntry\<lparr>img := True, video := True\<rparr>"

definition giveawayConfig :: config where
  "giveawayConfig =
     withStrings [CArr [CStr ''giveaway'', CStr ''closed''], CStr ''spoiler''] defaultConfig"

definition withCaseSensitive :: "bool \<Rightarrow> config \<Rightarrow> config" where
  "withCaseSensitive b cfg = cfg\<lparr>options := (options cfg)\<lparr>caseSensitive := b\<rparr>\<rparr>"

definition nestedEmptyConfig :: config where
  "nestedEmptyConfig =
     withStrings [CArr [CArr []]] (withCaseSensitive True (withUncommented False defaultConfig))"




definition secondBatch :: "added_node list list" where
  "secondBatch = [[Activity repliedEntry], [Activity repliedEntry, LoadMoreButton 8]]"

definition sameControlTwice :: "event list" where
  "sameControlTwice = [Batch True [[LoadMoreButton 7]], Batch True [[LoadMoreButton 7]]]"

section \<open>Properties of the pagination loop\<close>

lemma clickListener_fields:
  "clicked (clickListener s) = clicked s" "listeners (clickListener s) = listeners s"
  "loadMore (clickListener s) = loadMore s" "currentLoadCount (clickListener s) = currentLoadCount s"
  "removed (clickListener s) = removed s"
  by (simp_all add: clickListener_def showCancel_def createCancel_def simulateDomEvents_def split: option.splits)

lemma clickListener_funpow_fields:
  "clicked ((clickListener ^^ k) s) = clicked s \<and> listeners ((clickListener ^^ k) s) = listeners s \<and>
   loadMore ((clickListener ^^ k) s) = loadMore s \<and>
   currentLoadCount ((clickListener ^^ k) s) = currentLoadCount s \<and>
   removed ((clickListener ^^ k) s) = removed s"
  by (induction k) (simp_all add: clickListener_fields)

lemma dispatchClick_fields:
  "clicked (dispatchClick b s) = clicked s" "listeners (dispatchClick b s) = listeners s"
  "loadMore (dispatchClick b s) = loadMore s" "currentLoadCount (dispatchClick b s) = currentLoadCount s"
  "removed (dispatchClick b s) = removed s"
  by (simp_all add: dispatchClick_def clickListener_funpow_fields)

lemma dispatchClick_unregistered: "b \<notin> set (listeners s) \<Longrightarrow> dispatchClick b s = s"
  by (simp add: dispatchClick_def count_list_0_iff)

lemma clickLoadMore_held:
  "loadMore s = Some b \<Longrightarrow> clicked (clickLoadMore s) = clicked s @ [b] \<and> loadMore (clickLoadMore s) = None
     \<and> listeners (clickLoadMore s) = listeners s \<and> currentLoadCount (clickLoadMore s) = currentLoadCount s"
  by (simp add: clickLoadMore_def dispatchClick_fields)

lemma clickLoadMore_none: "loadMore s = None \<Longrightarrow> clickLoadMore s = s"
  by (simp add: clickLoadMore_def)

lemma reset_fields:
  "currentLoadCount (ui_resetState (ac_resetState s)) = 0"
  "\<not> userPressed (ui_resetState (ac_resetState s))"
  "cancel (ui_resetState (ac_resetState s)) \<noteq> Some Shown"
  "clicked (ui_resetState (ac_resetState s)) = clicked s"
  "listeners (ui_resetState (ac_resetState s)) = listeners s"
  "loadMore (ui_resetState (ac_resetState s)) = loadMore s"
  by (simp_all add: ui_resetState_def ac_resetState_def hideCancel_def split: option.splits)

lemma handleAddedNode_fields:
  "handleAddedNode cfg a s = Inr s' \<Longrightarrow> userPressed s' = userPressed s \<and> clicked s' = clicked s"
  by (auto simp: handleAddedNode_def removeEntry_def setLoadMore_def split: added_node.splits sum.splits bool.splits)

lemma handleNodes_fields:
  "handleNodes cfg as s = (s', r) \<Longrightarrow> userPressed s' = userPressed s \<and> clicked s' = clicked s"
proof (induction as arbitrary: s)
  case Nil
  then show ?case by simp
next
  case (Cons a as)
  show ?case
  proof (cases "handleAddedNode cfg a s")
    case (Inl e)
    with Cons.prems show ?thesis by simp
  next
    case (Inr s1)
    with Cons.prems have "handleNodes cfg as s1 = (s', r)" by simp
    from Cons.IH[OF this] handleAddedNode_fields[OF Inr] show ?thesis by simp
  qed
qed

text \<open>
  C3. After the nodes of a batch are handled, the callback either continues or
  resets.  Let \<open>s1\<close> be the state the nodes of the batch leave.  If
  \<open>currentLoadCount\<close> is below \<open>targetLoadCount\<close> there and \<open>userPressed\<close> holds,
  the batch ends as \<open>clickLoadMore\<close> does: the pending control, if there is one, is
  clicked and the reference cleared, and the count is kept.  Otherwise the count becomes
  0, whatever it was, \<open>userPressed\<close> becomes false, the cancel button is not shown,
  and no control is clicked.
\<close>

theorem batch_continue_or_reset:
  assumes h: "handleNodes cfg (concat mutations) s = (s1, None)"
  shows "(int (currentLoadCount s1) < targetLoadCount (options cfg) \<and> userPressed s1 \<longrightarrow>
            step cfg s (Batch True mutations) = clickLoadMore s1 \<and>
            currentLoadCount (step cfg s (Batch True mutations)) = currentLoadCount s1 \<and>
            (\<forall>b. loadMore s1 = Some b \<longrightarrow>
               clicked (step cfg s (Batch True mutations)) = clicked s1 @ [b] \<and>
               loadMore (step cfg s (Batch True mutations)) = None)) \<and>
         (\<not> (int (currentLoadCount s1) < targetLoadCount (options cfg) \<and> userPressed s1) \<longrightarrow>
            currentLoadCount (step cfg s (Batch True mutations)) = 0 \<and>
            \<not> userPressed (step cfg s (Batch True mutations)) \<and>
            cancel (step cfg s (Batch True mutations)) \<noteq> Some Shown \<and>
            clicked (step cfg s (Batch True mutations)) = clicked s1)"
proof -
  from h have st: "step cfg s (Batch True mutations) = loadMoreOrReset cfg s1"
    by (simp add: observeMutations_def)
  show ?thesis
  proof (cases "int (currentLoadCount s1) < targetLoadCount (options cfg) \<and> userPressed s1")
    case True
    then have eq: "loadMoreOrReset cfg s1 = clickLoadMore s1" by (simp add: loadMoreOrReset_def)
    have "currentLoadCount (clickLoadMore s1) = currentLoadCount s1"
      by (cases "loadMore s1") (simp_all add: clickLoadMore_none clickLoadMore_held)
    with True eq st show ?thesis by (simp add: clickLoadMore_held)
  next
    case False
    then have "loadMoreOrReset cfg s1 = ui_resetState (ac_resetState s1)"
      unfolding loadMoreOrReset_def by (simp only: if_False)
    with False st show ?thesis by (auto simp: reset_fields)
  qed
qed

theorem batch_continue_or_reset_witness:
  "handleNodes defaultConfig (concat firstBatch) constructed =
     (constructed\<lparr>currentLoadCount := 1, loadMore := Some 7, listeners := [7], removed := [plainEntry]\<rparr>, None) \<and>
   clicked (step defaultConfig constructed (Batch True firstBatch)) = [7] \<and>
   loadMore (step defaultConfig constructed (Batch True firstBatch)) = None \<and>
   currentLoadCount (step defaultConfig constructed (Batch True firstBatch)) = 1 \<and>
   handleNodes defaultConfig (concat secondBatch) holdingState =
     (holdingState\<lparr>currentLoadCount := 3, loadMore := Some 8, listeners := [7, 8]\<rparr>, None) \<and>
   currentLoadCount (step defaultConfig holdingState (Batch True secondBatch)) = 0 \<and>
   \<not> userPressed (step defaultConfig holdingState (Batch True secondBatch)) \<and>
   clicked (step defaultConfig holdingState (Batch True secondBatch)) = []"
proof -
  let ?s1 = "constructed\<lparr>currentLoadCount := 1, loadMore := Some 7, listeners := [7], removed := [plainEntry]\<rparr>"
  let ?s2 = "holdingState\<lparr>currentLoadCount := 3, loadMore := Some 8, listeners := [7, 8]\<rparr>"
  have h1: "handleNodes defaultConfig (concat firstBatch) constructed = (?s1, None)"
    by code_simp
  have h2: "handleNodes defaultConfig (concat secondBatch) holdingState = (?s2, None)"
    by code_simp
  have a: "int (currentLoadCount ?s1) < targetLoadCount (options defaultConfig) \<and> userPressed ?s1"
    by (simp add: defaultConfig_def constructed_def)
  have b: "\<not> (int (currentLoadCount ?s2) < targetLoadCount (options defaultConfig) \<and> userPressed ?s2)"
    by (simp add: defaultConfig_def)
  have c: "loadMore ?s1 = Some 7" "clicked ?s1 = []" "currentLoadCount ?s1 = 1" "clicked ?s2 = []"
    by (simp_all add: constructed_def holdingState_def)
  from batch_continue_or_reset[OF h1] a
  have p: "currentLoadCount (step defaultConfig constructed (Batch True firstBatch)) = currentLoadCount ?s1 \<and>
       (\<forall>b. loadMore ?s1 = Some b \<longrightarrow>
          clicked (step defaultConfig constructed (Batch True firstBatch)) = clicked ?s1 @ [b] \<and>
          loadMore (step defaultConfig constructed (Batch True firstBatch)) = None)"
    by blast
  from batch_continue_or_reset[OF h2] b
  have q: "currentLoadCount (step defaultConfig holdingState (Batch True secondBatch)) = 0 \<and>
           \<not> userPressed (step defaultConfig holdingState (Batch True secondBatch)) \<and>
           clicked (step defaultConfig holdingState (Batch True secondBatch)) = clicked ?s2"
    by blast
  from p c have p': "clicked (step defaultConfig constructed (Batch True firstBatch)) = [7]"
    "loadMore (step defaultConfig constructed (Batch True firstBatch)) = None"
    "currentLoadCount (step defaultConfig constructed (Batch True firstBatch)) = 1"
    by simp_all
  from h1 h2 p' q c show ?thesis by simp
qed

text \<open>
  C7. From a state where \<open>userPressed\<close> is false, a batch clicks no control, whatever
  the count is, and leaves \<open>userPressed\<close> false; and the only event after which
  \<open>userPressed\<close> is true is the user's click on a load-more control that the script
  has registered.
\<close>

theorem no_auto_continue_when_not_pressed:
  assumes "\<not> userPressed s"
  shows "clicked (step cfg s (Batch isAllowedUrl mutations)) = clicked s \<and>
         \<not> userPressed (step cfg s (Batch isAllowedUrl mutations)) \<and>
         (userPressed (step cfg s ev) \<longrightarrow> (\<exists>b. ev = UserClick b \<and> b \<in> set (listeners s)))"
proof -
  have batch: "clicked (step cfg s (Batch a m)) = clicked s \<and> \<not> userPressed (step cfg s (Batch a m))" for a m
  proof (cases a)
    case False
    with assms show ?thesis by (simp add: observeMutations_def)
  next
    case True
    obtain s1 r where h: "handleNodes cfg (concat m) s = (s1, r)" by (cases "handleNodes cfg (concat m) s")
    from handleNodes_fields[OF h] assms have s1: "\<not> userPressed s1" "clicked s1 = clicked s" by simp_all
    show ?thesis
    proof (cases r)
      case None
      with True h have "step cfg s (Batch a m) = loadMoreOrReset cfg s1" by (simp add: observeMutations_def)
      moreover from s1 have "loadMoreOrReset cfg s1 = ui_resetState (ac_resetState s1)"
        by (simp add: loadMoreOrReset_def)
      ultimately show ?thesis using s1 by (simp add: reset_fields)
    next
      case (Some e)
      with True h have "step cfg s (Batch a m) = s1" by (simp add: observeMutations_def)
      with s1 show ?thesis by simp
    qed
  qed
  have other: "userPressed (step cfg s ev) \<longrightarrow> (\<exists>b. ev = UserClick b \<and> b \<in> set (listeners s))"
  proof (cases ev)
    case (Batch a m)
    with batch show ?thesis by simp
  next
    case (UserClick b)
    with assms show ?thesis by (cases "b \<in> set (listeners s)") (simp_all add: dispatchClick_unregistered)
  next
    case CancelClick
    with assms show ?thesis by (simp add: cancelClick_def split: option.splits)
  next
    case Tick
    with assms show ?thesis by (simp add: tick_def)
  qed
  from batch other show ?thesis by blast
qed

theorem no_auto_continue_when_not_pressed_witness:
  "\<not> userPressed idleState \<and>
   int (currentLoadCount idleState) < targetLoadCount (options defaultConfig) \<and>
   clicked (step defaultConfig idleState (Batch True firstBatch)) = clicked idleState \<and>
   \<not> userPressed (step defaultConfig idleState (Batch True firstBatch)) \<and>
   userPressed (step defaultConfig idleState (UserClick 7))"
proof -
  have h: "\<not> userPressed idleState" by (simp add: idleState_def)
  have lt: "int (currentLoadCount idleState) < targetLoadCount (options defaultConfig)"
    by (simp add: idleState_def holdingState_def constructed_def defaultConfig_def)
  have u: "userPressed (step defaultConfig idleState (UserClick 7))"
    by code_simp
  from no_auto_continue_when_not_pressed[OF h, of defaultConfig True firstBatch] h lt u
  show ?thesis by simp
qed

lemma heldOnce_same:
  "clicked s' = clicked s \<Longrightarrow> listeners s' = listeners s \<Longrightarrow> loadMore s' = loadMore s \<Longrightarrow>
   heldOnce s \<Longrightarrow> heldOnce s'"
  by (simp add: heldOnce_def)

lemma heldOnce_setLoadMore: "heldOnce s \<Longrightarrow> heldOnce (setLoadMore b s)"
  unfolding heldOnce_def setLoadMore_def
proof (intro allI)
  fix c
  assume h: "\<forall>b. count_list (clicked s) b + (if loadMore s = Some b then 1 else 0) \<le> count_list (listeners s) b"
  from h have "count_list (clicked s) c + (if loadMore s = Some c then 1 else 0) \<le> count_list (listeners s) c" ..
  then show "count_list (clicked (s\<lparr>loadMore := Some b, listeners := listeners s @ [b]\<rparr>)) c +
       (if loadMore (s\<lparr>loadMore := Some b, listeners := listeners s @ [b]\<rparr>) = Some c then 1 else 0)
       \<le> count_list (listeners (s\<lparr>loadMore := Some b, listeners := listeners s @ [b]\<rparr>)) c"
    by (simp split: if_splits)
qed

lemma heldOnce_clickLoadMore: "heldOnce s \<Longrightarrow> heldOnce (clickLoadMore s)"
proof (cases "loadMore s")
  case None
  assume "heldOnce s"
  with None show ?thesis by (simp add: clickLoadMore_none)
next
  case (Some b)
  assume h: "heldOnce s"
  note f = clickLoadMore_held[OF Some]
  show ?thesis unfolding heldOnce_def
  proof
    fix c
    from h have "count_list (clicked s) c + (if loadMore s = Some c then 1 else 0) \<le> count_list (listeners s) c"
      unfolding heldOnce_def ..
    with Some f show "count_list (clicked (clickLoadMore s)) c + (if loadMore (clickLoadMore s) = Some c then 1 else 0)
       \<le> count_list (listeners (clickLoadMore s)) c"
      by (simp split: if_splits)
  qed
qed

lemma heldOnce_handleAddedNode: "heldOnce s \<Longrightarrow> handleAddedNode cfg a s = Inr s' \<Longrightarrow> heldOnce s'"
proof (cases a)
  case (Activity n)
  assume h: "heldOnce s" and r: "handleAddedNode cfg a s = Inr s'"
  from r Activity have "clicked s' = clicked s \<and> listeners s' = listeners s \<and> loadMore s' = loadMore s"
    by (auto simp: handleAddedNode_def removeEntry_def split: sum.splits bool.splits)
  with h show ?thesis by (simp add: heldOnce_same)
next
  case (LoadMoreButton b)
  assume h: "heldOnce s" and r: "handleAddedNode cfg a s = Inr s'"
  from r LoadMoreButton have "s' = setLoadMore b s" by (simp add: handleAddedNode_def)
  with h show ?thesis by (simp add: heldOnce_setLoadMore)
next
  case OtherNode
  assume h: "heldOnce s" and r: "handleAddedNode cfg a s = Inr s'"
  with OtherNode show ?thesis by (simp add: handleAddedNode_def)
qed

lemma heldOnce_handleNodes: "heldOnce s \<Longrightarrow> handleNodes cfg as s = (s', r) \<Longrightarrow> heldOnce s'"
proof (induction as arbitrary: s)
  case Nil
  then show ?case by simp
next
  case (Cons a as)
  show ?case
  proof (cases "handleAddedNode cfg a s")
    case (Inl e)
    with Cons.prems show ?thesis by simp
  next
    case (Inr s1)
    with Cons.prems have "handleNodes cfg as s1 = (s', r)" by simp
    moreover from Cons.prems(1) Inr have "heldOnce s1" by (rule heldOnce_handleAddedNode)
    ultimately show ?thesis by (rule Cons.IH[rotated])
  qed
qed

lemma heldOnce_loadMoreOrReset: "heldOnce s \<Longrightarrow> heldOnce (loadMoreOrReset cfg s)"
  by (auto simp: loadMoreOrReset_def heldOnce_clickLoadMore reset_fields intro: heldOnce_same)

lemma heldOnce_step: "heldOnce s \<Longrightarrow> heldOnce (step cfg s ev)"
proof (cases ev)
  case (Batch a m)
  assume h: "heldOnce s"
  obtain s1 r where hn: "handleNodes cfg (concat m) s = (s1, r)" by (cases "handleNodes cfg (concat m) s")
  from heldOnce_handleNodes[OF h hn] have s1: "heldOnce s1" .
  from Batch hn have "step cfg s ev = s \<or> step cfg s ev = s1 \<or> step cfg s ev = loadMoreOrReset cfg s1"
    by (cases r) (simp_all add: observeMutations_def)
  with h s1 show ?thesis by (auto simp: heldOnce_loadMoreOrReset)
next
  case (UserClick b)
  assume "heldOnce s"
  with UserClick show ?thesis by (auto intro: heldOnce_same simp: dispatchClick_fields)
next
  case CancelClick
  assume "heldOnce s"
  with CancelClick show ?thesis by (auto intro: heldOnce_same simp: cancelClick_def split: option.splits)
next
  case Tick
  assume "heldOnce s"
  with Tick show ?thesis by (auto intro: heldOnce_same simp: tick_def)
qed

lemma heldOnce_foldl: "heldOnce s \<Longrightarrow> heldOnce (foldl (step cfg) s events)"
  by (induction events arbitrary: s) (simp_all add: heldOnce_step)

lemma heldOnce_run: "heldOnce (run cfg events)"
  unfolding run_def by (rule heldOnce_foldl) (simp add: heldOnce_def constructed_def)

lemma distinct_count_list: "distinct xs \<Longrightarrow> count_list xs c \<le> 1"
  by (induction xs) (auto simp: count_list_0_iff)

text \<open>
  The script keeps no record of the controls it has clicked.  When the same control is
  added in two batches, it is held twice and clicked twice.
\<close>

theorem same_control_clicked_twice:
  "clicked (run defaultConfig sameControlTwice) = [7, 7] \<and>
   \<not> count_list (clicked (run defaultConfig sameControlTwice)) 7 \<le> 1"
  by code_simp

text \<open>
  C8, amended.  \<open>clickLoadMore\<close> clicks the held control and clears the reference in
  the same step; without a held control it changes nothing; calling it again changes
  nothing more.  Hence, in every run of the script, a control is clicked by the script
  at most as often as it was handed to \<open>setLoadMore\<close>, and at most once when no
  control is handed over twice.
\<close>

theorem clickLoadMore_single_use:
  "(\<forall>b. loadMore s = Some b \<longrightarrow>
      clicked (clickLoadMore s) = clicked s @ [b] \<and> loadMore (clickLoadMore s) = None) \<and>
   (loadMore s = None \<longrightarrow> clickLoadMore s = s) \<and>
   clickLoadMore (clickLoadMore s) = clickLoadMore s \<and>
   count_list (clicked (run cfg events)) c \<le> count_list (listeners (run cfg events)) c \<and>
   (distinct (listeners (run cfg events)) \<longrightarrow> count_list (clicked (run cfg events)) c \<le> 1)"
proof -
  have twice: "clickLoadMore (clickLoadMore s) = clickLoadMore s"
  proof (cases "loadMore s")
    case None
    then show ?thesis by (simp add: clickLoadMore_none)
  next
    case (Some b)
    then have "loadMore (clickLoadMore s) = None" by (simp add: clickLoadMore_held)
    then show ?thesis by (rule clickLoadMore_none)
  qed
  have "count_list (clicked (run cfg events)) c + (if loadMore (run cfg events) = Some c then 1 else 0)
        \<le> count_list (listeners (run cfg events)) c"
    using heldOnce_run[of cfg events] unfolding heldOnce_def ..
  then have le: "count_list (clicked (run cfg events)) c \<le> count_list (listeners (run cfg events)) c"
    by (simp split: if_splits)
  have "count_list (clicked (run cfg events)) c \<le> 1" if "distinct (listeners (run cfg events))"
    using le distinct_count_list[OF that, of c] by simp
  with twice le show ?thesis by (simp add: clickLoadMore_held clickLoadMore_none)
qed

theorem clickLoadMore_single_use_witness:
  "loadMore holdingState = Some 7 \<and> clicked (clickLoadMore holdingState) = [7] \<and>
   loadMore (clickLoadMore holdingState) = None \<and>
   loadMore constructed = None \<and> clickLoadMore constructed = constructed \<and>
   distinct (listeners (run defaultConfig [Batch True firstBatch, Batch True [[Activity plainEntry]]])) \<and>
   count_list (clicked (run defaultConfig [Batch True firstBatch, Batch True [[Activity plainEntry]]])) 7 \<le> 1"
proof -
  let ?events = "[Batch True firstBatch, Batch True [[Activity plainEntry]]]"
  have c: "loadMore holdingState = Some 7" "clicked holdingState = []" "loadMore constructed = None"
    by (simp_all add: holdingState_def constructed_def)
  have d: "distinct (listeners (run defaultConfig ?events))"
    by code_simp
  from clickLoadMore_single_use[of holdingState defaultConfig ?events 7]
       clickLoadMore_single_use[of constructed defaultConfig ?events 7] c d
  show ?thesis by simp
qed

text \<open>
  C10. The constructor sets \<open>userPressed\<close> to true and holds no control.  So when the
  first batch brings a load-more control and leaves the count below
  \<open>targetLoadCount\<close>, the script clicks that control, though the user has clicked
  nothing.
\<close>

theorem first_batch_auto_continues:
  "userPressed constructed \<and> loadMore constructed = None \<and>
   (handleNodes cfg (concat mutations) constructed = (s1, None) \<longrightarrow>
    int (currentLoadCount s1) < targetLoadCount (options cfg) \<longrightarrow>
    loadMore s1 = Some b \<longrightarrow>
    clicked (step cfg constructed (Batch True mutations)) = [b])"
proof -
  have c: "userPressed constructed" "loadMore constructed = None" "clicked constructed = []"
    by (simp_all add: constructed_def)
  have "clicked (step cfg constructed (Batch True mutations)) = [b]"
    if h: "handleNodes cfg (concat mutations) constructed = (s1, None)"
      and lt: "int (currentLoadCount s1) < targetLoadCount (options cfg)"
      and lm: "loadMore s1 = Some b"
  proof -
    from handleNodes_fields[OF h] c have s1: "userPressed s1" "clicked s1 = []" by simp_all
    from h have "step cfg constructed (Batch True mutations) = loadMoreOrReset cfg s1"
      by (simp add: observeMutations_def)
    also from lt s1 have "\<dots> = clickLoadMore s1" by (simp add: loadMoreOrReset_def)
    finally show ?thesis using clickLoadMore_held[OF lm] s1 by simp
  qed
  with c show ?thesis by blast
qed

theorem first_batch_auto_continues_witness:
  "handleNodes defaultConfig (concat firstBatch) constructed =
     (constructed\<lparr>currentLoadCount := 1, loadMore := Some 7, listeners := [7], removed := [plainEntry]\<rparr>, None) \<and>
   clicked (step defaultConfig constructed (Batch True firstBatch)) = [7]"
proof -
  let ?s1 = "constructed\<lparr>currentLoadCount := 1, loadMore := Some 7, listeners := [7], removed := [plainEntry]\<rparr>"
  have h: "handleNodes defaultConfig (concat firstBatch) constructed = (?s1, None)"
    by code_simp
  have lt: "int (currentLoadCount ?s1) < targetLoadCount (options defaultConfig)"
    by (simp add: defaultConfig_def)
  have lm: "loadMore ?s1 = Some 7" by simp
  from first_batch_auto_continues[of defaultConfig firstBatch ?s1 7] h lt lm show ?thesis by blast
qed

section \<open>Properties of the decision\<close>

lemma someM_total:
  "(\<And>x. x \<in> set xs \<Longrightarrow> \<exists>v. f x = Inr v \<and> truthy v = P x) \<Longrightarrow> someM f xs = Inr (list_ex P xs)"
proof (induction xs)
  case Nil
  then show ?case by simp
next
  case (Cons x xs)
  from Cons.prems[of x] obtain v where v: "f x = Inr v" "truthy v = P x" by auto
  have "someM f xs = Inr (list_ex P xs)" by (rule Cons.IH) (simp add: Cons.prems)
  with v show ?case by simp
qed

lemma everyM_total:
  "(\<And>x. x \<in> set xs \<Longrightarrow> \<exists>v. f x = Inr v \<and> truthy v = P x) \<Longrightarrow> everyM f xs = Inr (list_all P xs)"
proof (induction xs)
  case Nil
  then show ?case by simp
next
  case (Cons x xs)
  from Cons.prems[of x] obtain v where v: "f x = Inr v" "truthy v = P x" by auto
  have "everyM f xs = Inr (list_all P xs)" by (rule Cons.IH) (simp add: Cons.prems)
  with v show ?case by simp
qed

lemma mapM_total:
  "(\<And>x. x \<in> set xs \<Longrightarrow> f x = Inr (g x)) \<Longrightarrow> mapM f xs = Inr (map g xs)"
  by (induction xs) simp_all

lemma containsString_CStr:
  "containsString cfg txt (CStr s) = Inr (JBool (occursIn cfg txt s))"
  by (simp add: containsString_def occursIn_def str_includes_def)

lemma stringsOf_Cons: "stringsOf (CStr s # vs) = s # stringsOf vs"
  by (simp add: stringsOf_def)

lemma everyM_strings:
  "list_all isStr ms \<Longrightarrow> everyM (containsString cfg txt) ms = Inr (list_all (occursIn cfg txt) (stringsOf ms))"
proof (induction ms)
  case Nil
  then show ?case by (simp add: stringsOf_def)
next
  case (Cons m ms)
  then obtain s where "m = CStr s" by (cases m) (simp_all add: isStr_def)
  with Cons show ?case by (simp add: containsString_CStr stringsOf_Cons)
qed

lemma checkStrings_shallow:
  "(case p of CStr _ \<Rightarrow> True | CArr ms \<Rightarrow> list_all isStr ms) \<Longrightarrow>
   checkStrings cfg n p = Inr (JBool (groupMatches cfg n (groupOf p)))"
  by (cases p) (simp_all add: checkStrings_def containsString_CStr groupMatches_def groupOf_def
      everyM_strings liftB_def)

lemma shouldRemoveStrings_shallow:
  assumes "shallowPatterns cfg"
  shows "shouldRemoveStrings cfg n reversed =
         Inr (JBool (flat (containsStrings (remove cfg)) \<noteq> [] \<and> (someGroupMatches cfg n \<noteq> reversed)))"
proof -
  have "someM (checkStrings cfg n) (containsStrings (remove cfg)) =
        Inr (list_ex (\<lambda>p. groupMatches cfg n (groupOf p)) (containsStrings (remove cfg)))"
  proof (rule someM_total)
    fix p assume "p \<in> set (containsStrings (remove cfg))"
    with assms have "case p of CStr _ \<Rightarrow> True | CArr ms \<Rightarrow> list_all isStr ms"
      by (simp add: shallowPatterns_def list_all_iff)
    then show "\<exists>v. checkStrings cfg n p = Inr v \<and> truthy v = groupMatches cfg n (groupOf p)"
      by (simp add: checkStrings_shallow)
  qed
  moreover have "list_ex (\<lambda>p. groupMatches cfg n (groupOf p)) (containsStrings (remove cfg)) = someGroupMatches cfg n"
    by (simp add: someGroupMatches_def patternGroups_def list_ex_iff)
  ultimately show ?thesis by (auto simp: shouldRemoveStrings_def)
qed

lemma conditionsMap_keys: "map fst (conditionsMap cfg) = allowedConditions"
  by (simp add: conditionsMap_def allowedConditions_def)

lemma conditionsMap_call:
  "(name, p) \<in> set (conditionsMap cfg) \<Longrightarrow> p n r = callCondition cfg n r (CStr name)"
  by (auto simp: conditionsMap_def callCondition_def mapGet_def)

lemma callCondition_reversed:
  assumes "shallowPatterns cfg" "s \<in> set allowedConditions"
  shows "callCondition cfg n True (CStr s) = Inr (JBool (underReversal cfg n s))"
  using assms(2) shouldRemoveStrings_shallow[OF assms(1), of n True]
  by (auto simp: allowedConditions_def callCondition_def mapGet_def conditionsMap_def reversible_def
        underReversal_def rawPredicate_def jsNot_def)

lemma callCondition_raw:
  assumes "shallowPatterns cfg" "s \<in> set allowedConditions"
  shows "\<exists>v. callCondition cfg n False (CStr s) = Inr v \<and> truthy v = rawPredicate cfg n s"
  using assms(2) shouldRemoveStrings_shallow[OF assms(1), of n False]
  by (auto simp: allowedConditions_def callCondition_def mapGet_def conditionsMap_def reversible_def
        rawPredicate_def)

lemma flat_strings: "list_all isStr lc \<Longrightarrow> flat lc = lc"
  by (induction lc rule: flat.induct) (simp_all add: isStr_def)

lemma flat_member: "CArr ms \<in> set lc \<Longrightarrow> set ms \<subseteq> set (flat lc)"
  by (induction lc rule: flat.induct) auto

lemma set_flat:
  "set (flat lc) = {c. \<exists>s. c = CStr s \<and> CStr s \<in> set lc} \<union> {c. \<exists>ms. CArr ms \<in> set lc \<and> c \<in> set ms}"
  by (induction lc rule: flat.induct) auto

lemma set_stringsOf: "set (stringsOf vs) = {s. CStr s \<in> set vs}"
  by (induction vs) (auto simp: stringsOf_def split: cfgval.splits)

lemma validated_linked:
  "validated cfg \<Longrightarrow> list_all allowedCondition (flat (linkedConditions (options cfg)))"
  by (simp add: validated_def validate_def validateLinkedConditions_def split: if_splits)

lemma allowedCondition_is: "allowedCondition c \<Longrightarrow> \<exists>s. c = CStr s \<and> s \<in> set allowedConditions"
  by (cases c) (simp_all add: allowedCondition_def)

lemma list_ex_stringsOf:
  "list_all isStr ms \<Longrightarrow>
   list_ex (\<lambda>c. case c of CStr s \<Rightarrow> Q s | CArr _ \<Rightarrow> False) ms = list_ex Q (stringsOf ms)"
  by (induction ms) (auto simp: stringsOf_def isStr_def split: cfgval.splits)

lemma list_all_stringsOf:
  "list_all isStr ms \<Longrightarrow>
   list_all (\<lambda>c. case c of CStr s \<Rightarrow> Q s | CArr _ \<Rightarrow> False) ms = list_all Q (stringsOf ms)"
  by (induction ms) (auto simp: stringsOf_def isStr_def split: cfgval.splits)

lemma allowed_isStr: "list_all allowedCondition ms \<Longrightarrow> list_all isStr ms"
  by (induction ms) (auto simp: isStr_def dest: allowedCondition_is)

lemma checkConditions_group:
  assumes sh: "shallowPatterns cfg" and al: "list_all allowedCondition ms"
  shows "checkConditions cfg n (CArr ms) r =
         Inr (JBool (if r then list_ex (underReversal cfg n) (stringsOf ms)
                     else list_all (rawPredicate cfg n) (stringsOf ms)))"
proof (cases r)
  case True
  have "someM (callCondition cfg n True) ms =
        Inr (list_ex (\<lambda>c. case c of CStr s \<Rightarrow> underReversal cfg n s | CArr _ \<Rightarrow> False) ms)"
  proof (rule someM_total)
    fix c assume "c \<in> set ms"
    with al have "allowedCondition c" by (simp add: list_all_iff)
    then obtain s where "c = CStr s" "s \<in> set allowedConditions" by (auto dest: allowedCondition_is)
    with callCondition_reversed[OF sh, of s n]
    show "\<exists>v. callCondition cfg n True c = Inr v \<and>
              truthy v = (case c of CStr s \<Rightarrow> underReversal cfg n s | CArr _ \<Rightarrow> False)"
      by simp
  qed
  with True show ?thesis
    by (simp add: checkConditions_def liftB_def list_ex_stringsOf[OF allowed_isStr[OF al]])
next
  case False
  have "everyM (callCondition cfg n False) ms =
        Inr (list_all (\<lambda>c. case c of CStr s \<Rightarrow> rawPredicate cfg n s | CArr _ \<Rightarrow> False) ms)"
  proof (rule everyM_total)
    fix c assume "c \<in> set ms"
    with al have "allowedCondition c" by (simp add: list_all_iff)
    then obtain s where "c = CStr s" "s \<in> set allowedConditions" by (auto dest: allowedCondition_is)
    with callCondition_raw[OF sh, of s n]
    show "\<exists>v. callCondition cfg n False c = Inr v \<and>
              truthy v = (case c of CStr s \<Rightarrow> rawPredicate cfg n s | CArr _ \<Rightarrow> False)"
      by simp
  qed
  with False show ?thesis
    by (simp add: checkConditions_def liftB_def list_all_stringsOf[OF allowed_isStr[OF al]])
qed

lemma linked_value:
  assumes va: "validated cfg" and un: "uniformLinked cfg" and sh: "shallowPatterns cfg"
  shows "shouldRemoveByLinkedConditions cfg n =
         Inr (list_ex (\<lambda>g. if reversedConditions (options cfg)
                            then list_ex (underReversal cfg n) g
                            else list_all (rawPredicate cfg n) g) (linkedGroups cfg))"
proof (cases "linkedConditions (options cfg)")
  case Nil
  then show ?thesis by (simp add: shouldRemoveByLinkedConditions_def linkedGroups_def)
next
  case (Cons first rest)
  let ?lc = "linkedConditions (options cfg)"
  let ?r = "reversedConditions (options cfg)"
  let ?G = "\<lambda>g. if ?r then list_ex (underReversal cfg n) g else list_all (rawPredicate cfg n) g"
  note al = validated_linked[OF va]
  show ?thesis
  proof (cases "list_all isStr ?lc")
    case True
    then have fl: "flat ?lc = ?lc" by (rule flat_strings)
    from True Cons have nf: "\<not> isArray first" by (cases first) (simp_all add: isStr_def isArray_def)
    from al fl have "list_all allowedCondition ?lc" by simp
    from checkConditions_group[OF sh this, of n ?r]
    have "checkConditions cfg n (CArr ?lc) ?r = Inr (JBool (?G (stringsOf ?lc)))" .
    with nf Cons True show ?thesis
      by (simp add: shouldRemoveByLinkedConditions_def linkedGroups_def)
  next
    case False
    with un have gr: "list_all isArray ?lc" by (simp add: uniformLinked_def)
    with Cons have f: "isArray first" by simp
    have "someM (\<lambda>condition. checkConditions cfg n condition ?r) ?lc =
          Inr (list_ex (\<lambda>c. ?G (groupOf c)) ?lc)"
    proof (rule someM_total)
      fix c assume c: "c \<in> set ?lc"
      with gr obtain ms where ms: "c = CArr ms" by (cases c) (auto simp: list_all_iff isArray_def)
      with c have "set ms \<subseteq> set (flat ?lc)" by (simp add: flat_member)
      with al have "list_all allowedCondition ms" by (auto simp: list_all_iff)
      from checkConditions_group[OF sh this, of n ?r] ms
      show "\<exists>v. checkConditions cfg n c ?r = Inr v \<and> truthy v = ?G (groupOf c)"
        by (simp add: groupOf_def)
    qed
    moreover have "list_ex (\<lambda>c. ?G (groupOf c)) ?lc = list_ex ?G (map groupOf ?lc)"
      by (simp add: list_ex_iff)
    moreover have "shouldRemoveByLinkedConditions cfg n =
                   someM (\<lambda>condition. checkConditions cfg n condition ?r) ?lc"
      using f Cons by (simp add: shouldRemoveByLinkedConditions_def)
    moreover have "linkedGroups cfg = map groupOf ?lc"
      using False Cons by (auto simp: linkedGroups_def Let_def)
    ultimately show ?thesis by (simp only:)
  qed
qed

lemma groupOf_member:
  "name \<in> set (groupOf c) = (c = CStr name \<or> (\<exists>ms. c = CArr ms \<and> CStr name \<in> set ms))"
  by (cases c) (auto simp: groupOf_def set_stringsOf)

lemma skipChecking_claimed: "skipChecking cfg name = claimed cfg name"
proof (cases "list_all isStr (linkedConditions (options cfg))")
  case True
  then show ?thesis
    by (auto simp: skipChecking_def claimed_def linkedGroups_def Let_def flat_strings set_stringsOf)
next
  case False
  then have ne: "linkedConditions (options cfg) \<noteq> []" by auto
  have "claimed cfg name = (\<exists>c \<in> set (linkedConditions (options cfg)). name \<in> set (groupOf c))"
    using False ne by (simp add: claimed_def linkedGroups_def Let_def list_ex_iff)
  also have "\<dots> = (CStr name \<in> set (flat (linkedConditions (options cfg))))"
    unfolding set_flat by (auto simp: groupOf_member)
  finally show ?thesis by (simp add: skipChecking_def)
qed

lemma enabled_enabledCondition:
  "enabled (removeOption (remove cfg) name) = enabledCondition cfg name"
  by (auto simp: enabled_def removeOption_def enabledCondition_def)

lemma participates_spec:
  "participates cfg name = (enabledCondition cfg name \<and> \<not> claimed cfg name)"
  by (simp add: participates_def skipChecking_claimed enabled_enabledCondition)

lemma filter_conditionsMap:
  "map fst (filter (\<lambda>(name, predicate). participates cfg name) (conditionsMap cfg)) = participating cfg"
proof -
  have "map fst (filter (\<lambda>(name, predicate). participates cfg name) (conditionsMap cfg)) =
        filter (participates cfg) (map fst (conditionsMap cfg))"
    by (simp add: filter_map comp_def case_prod_unfold)
  moreover have "participates cfg = (\<lambda>name. enabledCondition cfg name \<and> \<not> claimed cfg name)"
    by (rule ext) (rule participates_spec)
  ultimately show ?thesis by (simp only: conditionsMap_keys participating_def)
qed

lemma conditionsMap_allowed: "(name, p) \<in> set (conditionsMap cfg) \<Longrightarrow> name \<in> set allowedConditions"
  using conditionsMap_keys[of cfg] by (metis fst_conv image_eqI set_map)

lemma independent_reversed:
  assumes sh: "shallowPatterns cfg"
  shows "mapM (\<lambda>(name, predicate). predicate n True)
           (filter (\<lambda>(name, predicate). participates cfg name) (conditionsMap cfg)) =
         Inr (map (\<lambda>name. JBool (underReversal cfg n name)) (participating cfg))"
proof -
  let ?F = "filter (\<lambda>(name, predicate). participates cfg name) (conditionsMap cfg)"
  have "mapM (\<lambda>(name, predicate). predicate n True) ?F =
        Inr (map (\<lambda>x. JBool (underReversal cfg n (fst x))) ?F)"
  proof (rule mapM_total)
    fix x assume "x \<in> set ?F"
    then have m: "x \<in> set (conditionsMap cfg)" by simp
    obtain name p where xp: "x = (name, p)" by (cases x)
    with m have x: "x = (name, p)" "(name, p) \<in> set (conditionsMap cfg)" by simp_all
    from conditionsMap_call[OF x(2), of n True] callCondition_reversed[OF sh conditionsMap_allowed[OF x(2)], of n]
    show "(case x of (name, predicate) \<Rightarrow> predicate n True) = Inr (JBool (underReversal cfg n (fst x)))"
      using x(1) by simp
  qed
  also have "map (\<lambda>x. JBool (underReversal cfg n (fst x))) ?F =
             map (\<lambda>name. JBool (underReversal cfg n name)) (map fst ?F)"
    by (simp add: comp_def)
  finally show ?thesis by (simp only: filter_conditionsMap)
qed

lemma independent_not_reversed:
  assumes sh: "shallowPatterns cfg"
  shows "someM (\<lambda>(name, predicate). if participates cfg name then predicate n False else Inr (JBool False))
           (conditionsMap cfg) =
         Inr (list_ex (rawPredicate cfg n) (participating cfg))"
proof -
  have "someM (\<lambda>(name, predicate). if participates cfg name then predicate n False else Inr (JBool False))
           (conditionsMap cfg) =
        Inr (list_ex (\<lambda>x. participates cfg (fst x) \<and> rawPredicate cfg n (fst x)) (conditionsMap cfg))"
  proof (rule someM_total)
    fix x assume m: "x \<in> set (conditionsMap cfg)"
    obtain name p where xp: "x = (name, p)" by (cases x)
    with m have x: "x = (name, p)" "(name, p) \<in> set (conditionsMap cfg)" by simp_all
    from callCondition_raw[OF sh conditionsMap_allowed[OF x(2)], of n] conditionsMap_call[OF x(2), of n False]
    show "\<exists>v. (case x of (name, predicate) \<Rightarrow>
                  if participates cfg name then predicate n False else Inr (JBool False)) = Inr v \<and>
              truthy v = (participates cfg (fst x) \<and> rawPredicate cfg n (fst x))"
      using x(1) by auto
  qed
  also have "list_ex (\<lambda>x. participates cfg (fst x) \<and> rawPredicate cfg n (fst x)) (conditionsMap cfg) =
             list_ex (\<lambda>name. participates cfg name \<and> rawPredicate cfg n name) (map fst (conditionsMap cfg))"
    by (simp add: list_ex_iff)
  also have "\<dots> = list_ex (rawPredicate cfg n) (participating cfg)"
    by (auto simp: conditionsMap_keys participating_def participates_spec list_ex_iff)
  finally show ?thesis .
qed

lemma toBeRemoved_all_true:
  "(JBool True \<in> set (map (\<lambda>x. JBool (P x)) xs) \<and> JBool False \<notin> set (map (\<lambda>x. JBool (P x)) xs)) =
   (xs \<noteq> [] \<and> list_all P xs)"
  by (cases xs) (auto simp: list_all_iff image_iff)

text \<open>
  Without reversal, for a validated configuration whose \<open>linkedConditions\<close> is one
  unwrapped group or a sequence of groups, and whose patterns are strings and groups of
  strings, the decision returns, and it removes the
  entry iff a participating condition holds or all members of some linked group hold.
\<close>

lemma decide_not_reversed:
  assumes va: "validated cfg" and un: "uniformLinked cfg" and sh: "shallowPatterns cfg"
    and nr: "\<not> reversedConditions (options cfg)"
  shows "shouldRemoveNode cfg n = Inr (removesNotReversed cfg n)"
proof -
  from linked_value[OF va un sh, of n] nr
  have l: "shouldRemoveByLinkedConditions cfg n =
           Inr (list_ex (\<lambda>g. list_all (rawPredicate cfg n) g) (linkedGroups cfg))" by simp
  show ?thesis
  proof (cases "list_ex (\<lambda>g. list_all (rawPredicate cfg n) g) (linkedGroups cfg)")
    case True
    with l show ?thesis by (simp add: shouldRemoveNode_def removesNotReversed_def)
  next
    case False
    with l nr independent_not_reversed[OF sh, of n] show ?thesis
      by (simp add: shouldRemoveNode_def removesNotReversed_def cong: if_cong)
  qed
qed

text \<open>
  C1. The validator accepts \<open>linkedConditions: [['images'], 'videos']\<close> as well.  On
  an entry without replies and media, \<open>uncommented\<close> is enabled, is in no linked group
  and holds, so the entry is to be removed.  But the decision calls \<open>every\<close> on the
  string \<open>'videos'\<close> and throws: the entry is neither removed nor counted.
\<close>

theorem entry_not_removed_on_mixed_linked:
  "validated groupThenBareConfig \<and>
   \<not> reversedConditions (options groupThenBareConfig) \<and>
   removesNotReversed groupThenBareConfig plainEntry \<and>
   shouldRemoveNode groupThenBareConfig plainEntry = Inl TypeError \<and>
   handleNodes groupThenBareConfig [Activity plainEntry] constructed = (constructed, Some TypeError)"
  by code_simp

text \<open>
  C4. The validator accepts \<open>linkedConditions: ['images', ['videos']]\<close>: after
  \<open>flat()\<close> it sees two allowed names.  The decision takes the whole array for one
  group, because its first element is no array, and looks up the nested array
  \<open>['videos']\<close> in the table; the result is \<open>undefined\<close>, and calling it throws.
  So on an entry with an image the decision path throws, in both modes, for a validated
  configuration.
\<close>

theorem decision_throws_on_mixed_linked:
  "validated bareThenGroupConfig \<and>
   shouldRemoveNode bareThenGroupConfig imageEntry = Inl TypeError \<and>
   shouldRemoveNode (withReversed True bareThenGroupConfig) imageEntry = Inl TypeError"
  by code_simp

text \<open>
  A pattern nested three deep passes \<open>validateArrayContents\<close> too; without case
  sensitivity \<open>containsString\<close> calls \<open>toLowerCase\<close> on the inner array and throws.
\<close>

lemma nested_pattern_throws:
  "validated (withStrings [CArr [CStr ''giveaway'', CArr [CStr ''closed'']]] defaultConfig) \<and>
   shouldRemoveNode (withStrings [CArr [CStr ''giveaway'', CArr [CStr ''closed'']]] defaultConfig)
     repliedEntry = Inl TypeError"
  by code_simp

text \<open>
  With \<open>reversedConditions\<close>, the linked group \<open>['containsStrings']\<close> and no
  pattern at all, no pattern group matches, yet the entry is kept: the string condition
  is false for an empty pattern set.
\<close>

theorem decide_reversed_counterexample:
  "validated linkedStringsConfig \<and> reversedConditions (options linkedStringsConfig) \<and>
   \<not> ((shouldRemoveNode linkedStringsConfig plainEntry = Inr True) =
       removesReversed underReversalAsClaimed linkedStringsConfig plainEntry)"
  by code_simp

text \<open>
  C2, amended.  For a validated configuration with \<open>reversedConditions\<close> whose
  \<open>linkedConditions\<close> is one unwrapped group or a sequence of groups, and whose
  patterns are strings and groups of strings, the decision
  returns, and it removes the entry iff some linked group has a member that is true
  under reversal, or the participating conditions are not empty and all true under
  reversal.  Under reversal a primitive predicate is negated, and the string condition
  is true iff the pattern set does not flatten to nothing and no pattern group matches.
\<close>

theorem decide_reversed:
  assumes va: "validated cfg" and un: "uniformLinked cfg" and sh: "shallowPatterns cfg"
    and re: "reversedConditions (options cfg)"
  shows "shouldRemoveNode cfg n = Inr (removesReversed underReversal cfg n)"
proof -
  from linked_value[OF va un sh, of n] re
  have l: "shouldRemoveByLinkedConditions cfg n =
           Inr (list_ex (\<lambda>g. list_ex (underReversal cfg n) g) (linkedGroups cfg))" by simp
  show ?thesis
  proof (cases "list_ex (\<lambda>g. list_ex (underReversal cfg n) g) (linkedGroups cfg)")
    case True
    with l show ?thesis by (simp add: shouldRemoveNode_def removesReversed_def)
  next
    case False
    with l re independent_reversed[OF sh, of n] show ?thesis
      by (simp add: shouldRemoveNode_def removesReversed_def toBeRemoved_all_true del: set_map)
  qed
qed

theorem decide_reversed_witness:
  "validated keepRepliedConfig \<and> uniformLinked keepRepliedConfig \<and> shallowPatterns keepRepliedConfig \<and>
   reversedConditions (options keepRepliedConfig) \<and>
   shouldRemoveNode keepRepliedConfig repliedEntry = Inr True \<and>
   shouldRemoveNode keepRepliedConfig mediaEntry = Inr False"
proof -
  have h: "validated keepRepliedConfig" "uniformLinked keepRepliedConfig"
    "shallowPatterns keepRepliedConfig" "reversedConditions (options keepRepliedConfig)"
    by code_simp+
  have r: "removesReversed underReversal keepRepliedConfig repliedEntry"
    "\<not> removesReversed underReversal keepRepliedConfig mediaEntry"
    by code_simp+
  from decide_reversed[OF h, of repliedEntry] decide_reversed[OF h, of mediaEntry] h r
  show ?thesis by simp
qed

text \<open>
  With no pattern configured, no group matches, but the string condition is false under
  reversal.
\<close>

theorem string_condition_counterexample:
  "\<not> (shouldRemoveStrings defaultConfig plainEntry True =
        Inr (JBool (\<not> someGroupMatches defaultConfig plainEntry)))"
  by code_simp

text \<open>
  C5, amended.  For a pattern set of strings and groups of strings that does not flatten
  to nothing, the string condition returns, and it is true iff some group matches when
  not reversed, and iff no group matches when reversed.  A group matches when each of
  its strings occurs in the text of the entry, both turned to lower case unless
  \<open>caseSensitive\<close> is set; a bare string is a group of one.
\<close>

theorem string_condition_groups:
  assumes "shallowPatterns cfg" and "flat (containsStrings (remove cfg)) \<noteq> []"
  shows "shouldRemoveStrings cfg n reversed =
         Inr (JBool (if reversed then \<not> someGroupMatches cfg n else someGroupMatches cfg n))"
  using shouldRemoveStrings_shallow[OF assms(1), of n reversed] assms(2) by auto

theorem string_condition_groups_witness:
  "shallowPatterns giveawayConfig \<and> flat (containsStrings (remove giveawayConfig)) \<noteq> [] \<and>
   someGroupMatches giveawayConfig plainEntry \<and>
   shouldRemoveStrings giveawayConfig plainEntry False = Inr (JBool True) \<and>
   shouldRemoveStrings giveawayConfig plainEntry True = Inr (JBool False)"
proof -
  have h: "shallowPatterns giveawayConfig" "flat (containsStrings (remove giveawayConfig)) \<noteq> []"
    by code_simp+
  have m: "someGroupMatches giveawayConfig plainEntry" by code_simp
  from string_condition_groups[OF h, of plainEntry False] string_condition_groups[OF h, of plainEntry True] h m
  show ?thesis by simp
qed

text \<open>
  When \<open>containsStrings.flat()\<close> is empty, as for \<open>[]\<close> and \<open>[[]]\<close>, the string
  condition is false on every entry in both modes, through the table of conditions as
  well; and when no other condition is enabled and nothing is linked, the entry is kept.
\<close>

lemma empty_pattern_set_is_false:
  assumes "flat (containsStrings (remove cfg)) = []"
  shows "shouldRemoveStrings cfg n reversed = Inr (JBool False) \<and>
         callCondition cfg n reversed (CStr ''containsStrings'') = Inr (JBool False) \<and>
         (\<not> uncommented (remove cfg) \<and> \<not> unliked (remove cfg) \<and> \<not> text_only (remove cfg) \<and>
          \<not> images (remove cfg) \<and> \<not> videos (remove cfg) \<and> linkedConditions (options cfg) = [] \<longrightarrow>
          shouldRemoveNode cfg n = Inr False)"
proof -
  from assms have s: "shouldRemoveStrings cfg n r = Inr (JBool False)" for r
    by (simp add: shouldRemoveStrings_def)
  then have c: "callCondition cfg n reversed (CStr ''containsStrings'') = Inr (JBool False)"
    by (simp add: callCondition_def mapGet_def conditionsMap_def)
  have "shouldRemoveNode cfg n = Inr False"
    if off: "\<not> uncommented (remove cfg)" "\<not> unliked (remove cfg)" "\<not> text_only (remove cfg)"
      "\<not> images (remove cfg)" "\<not> videos (remove cfg)" and nl: "linkedConditions (options cfg) = []"
  proof -
    from nl have l: "shouldRemoveByLinkedConditions cfg n = Inr False"
      by (simp add: shouldRemoveByLinkedConditions_def)
    from off have p: "participates cfg name \<Longrightarrow> name = ''containsStrings''" for name
      by (auto simp: participates_def enabled_def removeOption_def split: if_splits)
    show ?thesis
    proof (cases "reversedConditions (options cfg)")
      case True
      have "mapM (\<lambda>(name, predicate). predicate n True)
              (filter (\<lambda>(name, predicate). participates cfg name) (conditionsMap cfg)) =
            Inr (map (\<lambda>x. JBool False) (filter (\<lambda>(name, predicate). participates cfg name) (conditionsMap cfg)))"
      proof (rule mapM_total)
        fix x assume "x \<in> set (filter (\<lambda>(name, predicate). participates cfg name) (conditionsMap cfg))"
        then have m: "x \<in> set (conditionsMap cfg)" "participates cfg (fst x)" by auto
        obtain name q where xp: "x = (name, q)" by (cases x)
        with m p[of name] have "name = ''containsStrings''" by simp
        with m xp conditionsMap_call[of name q cfg n True] c s
        show "(case x of (name, predicate) \<Rightarrow> predicate n True) = Inr (JBool False)"
          by (simp add: callCondition_def mapGet_def conditionsMap_def)
      qed
      with True l show ?thesis by (auto simp: shouldRemoveNode_def)
    next
      case False
      have "someM (\<lambda>(name, predicate). if participates cfg name then predicate n False else Inr (JBool False))
              (conditionsMap cfg) = Inr (list_ex (\<lambda>x. False) (conditionsMap cfg))"
      proof (rule someM_total)
        fix x assume m: "x \<in> set (conditionsMap cfg)"
        obtain name q where xp: "x = (name, q)" by (cases x)
        show "\<exists>v. (case x of (name, predicate) \<Rightarrow>
                  if participates cfg name then predicate n False else Inr (JBool False)) = Inr v \<and>
              truthy v = False"
        proof (cases "participates cfg name")
          case True
          with p have "name = ''containsStrings''" by simp
          with m xp conditionsMap_call[of name q cfg n False] s True
          show ?thesis by (simp add: callCondition_def mapGet_def conditionsMap_def)
        next
          case False
          with xp show ?thesis by simp
        qed
      qed
      with False l show ?thesis by (simp add: shouldRemoveNode_def list_ex_iff cong: if_cong)
    qed
  qed
  with s c show ?thesis by blast
qed

text \<open>
  C6. The pattern set \<open>[[[]]]\<close> passes the validator and holds no string, but
  \<open>flat()\<close> removes one level only and leaves \<open>[[]]\<close>, so the guard does not
  return.  With \<open>caseSensitive\<close> the inner \<open>[]\<close> is converted to the empty
  string, which every text includes: the string condition is true, and alone it
  removes an entry that is kept when no pattern is configured.  Without
  \<open>caseSensitive\<close> the decision throws.
\<close>

theorem nested_empty_pattern_removes:
  "validated nestedEmptyConfig \<and>
   concat (map stringsIn (containsStrings (remove nestedEmptyConfig))) = [] \<and>
   shouldRemoveStrings nestedEmptyConfig repliedEntry False = Inr (JBool True) \<and>
   shouldRemoveNode nestedEmptyConfig repliedEntry = Inr True \<and>
   shouldRemoveNode (withStrings [] nestedEmptyConfig) repliedEntry = Inr False \<and>
   validated (withCaseSensitive False nestedEmptyConfig) \<and>
   shouldRemoveNode (withCaseSensitive False nestedEmptyConfig) repliedEntry = Inl TypeError"
  by code_simp


text \<open>
  The groups of a validated configuration return without an exception when the patterns
  are strings and groups of strings.
\<close>

lemma groups_evaluate:
  assumes va: "validated cfg" and sh: "shallowPatterns cfg"
    and gr: "list_all isArray gs" and su: "set gs \<subseteq> set (linkedConditions (options cfg))"
  shows "\<forall>g\<in>set gs. \<exists>v. checkConditions cfg n g r = Inr v"
proof
  fix g assume g: "g \<in> set gs"
  with gr obtain ms where ms: "g = CArr ms" by (cases g) (auto simp: list_all_iff isArray_def)
  with g su have "set ms \<subseteq> set (flat (linkedConditions (options cfg)))" by (auto dest: flat_member)
  with validated_linked[OF va] have "list_all allowedCondition ms" by (auto simp: list_all_iff)
  from checkConditions_group[OF sh this, of n r] ms
  show "\<exists>v. checkConditions cfg n g r = Inr v" by simp
qed




text \<open>
  Two scenarios of the specification: a group of patterns found without regard to case
  removes the entry; a linked group of \<open>images\<close> and \<open>videos\<close> keeps an entry that has
  an image only.
\<close>

lemma scenario_C: "shouldRemoveNode giveawayConfig repliedEntry = Inr True"
  by code_simp

lemma scenario_D:
  "shouldRemoveNode (withLinked [CStr ''images'', CStr ''videos''] (withUncommented False defaultConfig))
     imageEntry = Inr False"
  by code_simp

end
